theory Spec2Isabelle
  imports Main
begin

section \<open>The fetch, persist and derive pipeline of guia\_apis.py\<close>

text \<open>
  The script runs top to bottom once: it fetches a JSON array of user objects over
  HTTP, writes them with \<^verbatim>\<open>INSERT OR REPLACE\<close> into the SQLite table \<^verbatim>\<open>users\<close>,
  reads the table back into a pandas data frame and adds four computed columns.
  The model follows that order. Text is a \<^typ>\<open>string\<close> of 8-bit characters, which is
  exact for ASCII text: \<^verbatim>\<open>len\<close> is the number of characters and \<^verbatim>\<open>lower\<close>
  folds the letters A to Z.
\<close>

subsection \<open>Python strings\<close>

text \<open>\<^verbatim>\<open>str.lower\<close>, character by character.\<close>

definition lower_char :: "char \<Rightarrow> char" where
  "lower_char c =
     (let n = (of_char c :: nat) in if 65 \<le> n \<and> n \<le> 90 then char_of (n + 32) else c)"

definition lower :: "string \<Rightarrow> string" where
  "lower s = map lower_char s"

text \<open>
  \<^verbatim>\<open>x.split(sep)\<close> for a separator of one character: the pieces between the
  occurrences of the separator, in order; never the empty list.
\<close>

fun split_chr :: "char \<Rightarrow> string \<Rightarrow> string list" where
  "split_chr sep [] = [[]]"
| "split_chr sep (c # cs) =
     (if c = sep then [] # split_chr sep cs
      else (case split_chr sep cs of [] \<Rightarrow> [[c]] | p # ps \<Rightarrow> (c # p) # ps))"

text \<open>\<^verbatim>\<open>str(n)\<close> of an integer: its decimal digits, with a sign when negative.\<close>

fun nat_digits :: "nat \<Rightarrow> string" where
  "nat_digits n =
     (if n < 10 then [char_of (48 + n)]
      else nat_digits (n div 10) @ [char_of (48 + n mod 10)])"

definition str_int :: "int \<Rightarrow> string" where
  "str_int i = (if i < 0 then CHR ''-'' # nat_digits (nat (- i)) else nat_digits (nat i))"

subsection \<open>Data frames\<close>

text \<open>
  A cell of a pandas column of the frame that \<^verbatim>\<open>read_sql_query\<close> builds:
  \<^verbatim>\<open>None\<close> for SQL NULL, an integer, or text. A frame is its columns in order, each a
  name with its cells; all columns of one frame have the same number of cells.
\<close>

datatype cell = CNone | CInt int | CStr string

type_synonym series = "cell list"

type_synonym dataframe = "(string \<times> series) list"

datatype py_error =
    KeyError string
  | OverflowError
  | OperationalError

text \<open>\<^verbatim>\<open>df[c]\<close> raises KeyError when the frame has no column \<open>c\<close>.\<close>

definition getitem :: "dataframe \<Rightarrow> string \<Rightarrow> py_error + series" where
  "getitem df c = (case map_of df c of None \<Rightarrow> Inl (KeyError c) | Some s \<Rightarrow> Inr s)"

text \<open>
  \<^verbatim>\<open>df[c] = s\<close> replaces the column \<open>c\<close> in place when the frame has it and
  appends it as the last column otherwise. Every series the script assigns is computed
  from a column of the same frame, so it carries the frame's own index.
\<close>

fun setitem :: "dataframe \<Rightarrow> string \<Rightarrow> series \<Rightarrow> dataframe" where
  "setitem [] c s = [(c, s)]"
| "setitem ((c', s') # df) c s =
     (if c' = c then (c, s) # df else (c', s') # setitem df c s)"

text \<open>
  \<^verbatim>\<open>.astype(str)\<close> applies \<^verbatim>\<open>str\<close> to every cell, the missing ones
  included: \<^verbatim>\<open>str(None)\<close> is the text \<^verbatim>\<open>None\<close>.
\<close>

fun py_str :: "cell \<Rightarrow> string" where
  "py_str CNone = ''None''"
| "py_str (CInt i) = str_int i"
| "py_str (CStr s) = s"

definition astype_str :: "series \<Rightarrow> string list" where
  "astype_str col = map py_str col"

text \<open>\<^verbatim>\<open>.apply(len)\<close> on a column of text.\<close>

definition apply_len :: "string list \<Rightarrow> series" where
  "apply_len col = map (\<lambda>x. CInt (int (length x))) col"

text \<open>
  The function of line 95:
  \<^verbatim>\<open>lambda x: x.split('@')[-1].lower() if '@' in x else None\<close>.
  The index \<^verbatim>\<open>[-1]\<close> is the last piece; \<^verbatim>\<open>split\<close> never returns an empty list,
  so the index is always in range.
\<close>

definition email_domain_fn :: "string \<Rightarrow> cell" where
  "email_domain_fn x =
     (if CHR ''@'' \<in> set x then CStr (lower (last (split_chr CHR ''@'' x))) else CNone)"

text \<open>Lines 93 to 100: the four computed columns, assigned in the order of the script.\<close>

definition derive :: "dataframe \<Rightarrow> py_error + dataframe" where
  "derive df =
     (case getitem df ''name'' of Inl e \<Rightarrow> Inl e | Inr c1 \<Rightarrow>
        let df1 = setitem df ''name_length'' (apply_len (astype_str c1)) in
        (case getitem df1 ''email'' of Inl e \<Rightarrow> Inl e | Inr c2 \<Rightarrow>
           let df2 = setitem df1 ''email_domain'' (map email_domain_fn (astype_str c2)) in
           (case getitem df2 ''username'' of Inl e \<Rightarrow> Inl e | Inr c3 \<Rightarrow>
              let df3 = setitem df2 ''username_length'' (apply_len (astype_str c3)) in
              (case getitem df3 ''name'' of Inl e \<Rightarrow> Inl e | Inr c4 \<Rightarrow>
                 Inr (setitem df3 ''company_name_length'' (apply_len (astype_str c4)))))))"

subsection \<open>The table \<^verbatim>\<open>users\<close>\<close>

text \<open>
  A row of the table without its key: the five TEXT columns, each NULL or text.
\<close>

record stored_row =
  name :: "string option"
  username :: "string option"
  email :: "string option"
  phone :: "string option"
  website :: "string option"

text \<open>
  The table is declared with \<^verbatim>\<open>id INTEGER PRIMARY KEY\<close>, so \<open>id\<close> is the rowid of
  SQLite: a signed 64-bit integer, unique, and the order in which
  \<^verbatim>\<open>SELECT * FROM users\<close> walks the rows. A table is the list of its rows in that
  order, each with its rowid; \<^verbatim>\<open>CREATE TABLE IF NOT EXISTS\<close> makes the empty table
  \<open>[]\<close> on the first run and leaves an existing one alone.
\<close>

type_synonym table = "(int \<times> stored_row) list"

definition wf_table :: "table \<Rightarrow> bool" where
  "wf_table t = sorted_wrt (<) (map fst t)"

definition max_rowid :: int where
  "max_rowid = 9223372036854775807"

definition min_rowid :: int where
  "min_rowid = - 9223372036854775808"

text \<open>
  One user object of the fetched array, as the six \<^verbatim>\<open>u.get(key)\<close> of the loop
  see it: \<^verbatim>\<open>None\<close> for a missing key or a JSON null, otherwise an integer for
  \<open>id\<close> and text for the other keys. JSON values of other types are outside the model.
\<close>

record user =
  get_id :: "int option"
  get_name :: "string option"
  get_username :: "string option"
  get_email :: "string option"
  get_phone :: "string option"
  get_website :: "string option"

text \<open>The parameter tuple of lines 81 to 82, split into the key and the other columns.\<close>

definition params :: "user \<Rightarrow> int option \<times> stored_row" where
  "params u =
     (get_id u,
      \<lparr>name = get_name u, username = get_username u, email = get_email u,
       phone = get_phone u, website = get_website u\<rparr>)"

text \<open>
  Writing the row \<open>r\<close> under the rowid \<open>k\<close> with conflict resolution REPLACE: a row
  that has the rowid is deleted and the new one takes its place.
\<close>

fun insert_or_replace :: "int \<Rightarrow> stored_row \<Rightarrow> table \<Rightarrow> table" where
  "insert_or_replace k r [] = [(k, r)]"
| "insert_or_replace k r ((k', r') # t) =
     (if k < k' then (k, r) # (k', r') # t
      else if k = k' then (k, r) # t
      else (k', r') # insert_or_replace k r t)"

text \<open>
  The rowid SQLite chooses for a NULL key: 1 in an empty table, otherwise one more than
  the largest rowid. When the largest rowid is already the largest 64-bit integer,
  SQLite tries random positive candidates and gives up with SQLITE\_FULL (an
  OperationalError in Python) when none of them is unused; the candidates it ends with
  are the parameter \<open>rnd\<close> (\<open>None\<close>: it gave up).
\<close>

definition new_rowid :: "(table \<Rightarrow> int option) \<Rightarrow> table \<Rightarrow> py_error + int" where
  "new_rowid rnd t =
     (if t = [] then Inr 1
      else if fst (last t) < max_rowid then Inr (fst (last t) + 1)
      else (case rnd t of
              None \<Rightarrow> Inl OperationalError
            | Some k \<Rightarrow>
                if 0 < k \<and> k \<le> max_rowid \<and> k \<notin> fst ` set t then Inr k
                else Inl OperationalError))"

text \<open>
  One \<^verbatim>\<open>cur.execute\<close> of the loop (lines 77 to 83). Binding a Python integer
  that does not fit 64 bits raises OverflowError.
\<close>

definition execute_insert ::
    "(table \<Rightarrow> int option) \<Rightarrow> user \<Rightarrow> table \<Rightarrow> py_error + table" where
  "execute_insert rnd u t =
     (case params u of
        (None, r) \<Rightarrow>
          (case new_rowid rnd t of
             Inl e \<Rightarrow> Inl e
           | Inr k \<Rightarrow> Inr (insert_or_replace k r t))
      | (Some k, r) \<Rightarrow>
          if k < min_rowid \<or> max_rowid < k then Inl OverflowError
          else Inr (insert_or_replace k r t))"

text \<open>
  The loop of line 76 followed by the commit of line 84: the table the commit writes,
  or the exception that left the loop before the commit.
\<close>

fun upsert_all ::
    "(table \<Rightarrow> int option) \<Rightarrow> user list \<Rightarrow> table \<Rightarrow> py_error + table" where
  "upsert_all rnd [] t = Inr t"
| "upsert_all rnd (u # us) t =
     (case execute_insert rnd u t of
        Inl e \<Rightarrow> Inl e
      | Inr t' \<Rightarrow> upsert_all rnd us t')"

text \<open>
  The table in the database file after the run: an exception before the commit leaves
  the transaction open, and it is rolled back when the connection goes away.
\<close>

definition committed :: "(table \<Rightarrow> int option) \<Rightarrow> user list \<Rightarrow> table \<Rightarrow> table" where
  "committed rnd us t = (case upsert_all rnd us t of Inl e \<Rightarrow> t | Inr t' \<Rightarrow> t')"

text \<open>
  Line 87: the frame of \<^verbatim>\<open>SELECT * FROM users\<close>, the six columns in the order of
  the declaration, the rows in rowid order.
\<close>

definition opt_cell :: "string option \<Rightarrow> cell" where
  "opt_cell v = (case v of None \<Rightarrow> CNone | Some s \<Rightarrow> CStr s)"

definition read_sql_query :: "table \<Rightarrow> dataframe" where
  "read_sql_query t =
     [(''id'', map (\<lambda>p. CInt (fst p)) t),
      (''name'', map (\<lambda>p. opt_cell (name (snd p))) t),
      (''username'', map (\<lambda>p. opt_cell (username (snd p))) t),
      (''email'', map (\<lambda>p. opt_cell (email (snd p))) t),
      (''phone'', map (\<lambda>p. opt_cell (phone (snd p))) t),
      (''website'', map (\<lambda>p. opt_cell (website (snd p))) t)]"

text \<open>
  The column \<open>c\<close> of the frame that the tabs display when the table is \<open>t\<close>: the frame
  of line 87 after the assignments of lines 93 to 100, indexed as \<^verbatim>\<open>df[c]\<close>.
\<close>

definition derived_column :: "table \<Rightarrow> string \<Rightarrow> py_error + series" where
  "derived_column t c =
     (case derive (read_sql_query t) of Inl e \<Rightarrow> Inl e | Inr df \<Rightarrow> getitem df c)"

subsection \<open>The fetch\<close>

text \<open>
  The exceptions of the \<^verbatim>\<open>try\<close> block of lines 52 to 55. \<^verbatim>\<open>requests.get\<close>
  raises on a transport error or a timeout, \<^verbatim>\<open>raise_for_status\<close> raises
  HTTPError, \<^verbatim>\<open>response.json\<close> raises JSONDecodeError.
\<close>

datatype exn = ConnectionError | Timeout | HTTPError nat | JSONDecodeError

text \<open>
  A response that \<^verbatim>\<open>requests.get\<close> returned: its status code, and its body as
  \<^verbatim>\<open>response.json()\<close> reads it (\<open>None\<close>: the body is not JSON). A body that is
  JSON is taken to be an array of user objects.
\<close>

record response =
  status_code :: nat
  json :: "user list option"

text \<open>
  \<^verbatim>\<open>Response.raise_for_status\<close> of requests raises for the client errors
  (400 to 499) and the server errors (500 to 599), and for no other status.
\<close>

definition raise_for_status :: "response \<Rightarrow> exn + unit" where
  "raise_for_status resp =
     (if 400 \<le> status_code resp \<and> status_code resp < 600
      then Inl (HTTPError (status_code resp)) else Inr ())"

text \<open>
  Lines 53 to 55. The argument is what \<^verbatim>\<open>requests.get\<close> did: it raised, or it
  returned a response.
\<close>

definition fetch :: "exn + response \<Rightarrow> exn + user list" where
  "fetch g =
     (case g of
        Inl e \<Rightarrow> Inl e
      | Inr resp \<Rightarrow>
          (case raise_for_status resp of
             Inl e \<Rightarrow> Inl e
           | Inr _ \<Rightarrow>
               (case json resp of None \<Rightarrow> Inl JSONDecodeError | Some us \<Rightarrow> Inr us)))"

subsection \<open>One run of the script\<close>

text \<open>
  How a run ends, with the table it leaves in the database file:
  \<^item> \<open>Stopped\<close>: the fetch raised; \<^verbatim>\<open>st.error\<close> showed the exception and
    \<^verbatim>\<open>st.stop()\<close> ended the run (lines 56 to 58);
  \<^item> \<open>Crashed\<close>: an exception nothing catches left the script;
  \<^item> \<open>Rendered\<close>: the tabs were drawn from the derived frame.
\<close>

datatype outcome =
    Stopped exn table
  | Crashed py_error table
  | Rendered table dataframe

definition run :: "(table \<Rightarrow> int option) \<Rightarrow> exn + response \<Rightarrow> table \<Rightarrow> outcome" where
  "run rnd g t =
     (case fetch g of
        Inl e \<Rightarrow> Stopped e t
      | Inr users \<Rightarrow>
          (case upsert_all rnd users t of
             Inl err \<Rightarrow> Crashed err t
           | Inr t' \<Rightarrow>
               (case derive (read_sql_query t') of
                  Inl err \<Rightarrow> Crashed err t'
                | Inr df \<Rightarrow> Rendered t' df)))"

subsection \<open>The specification's wording of the derived columns\<close>

text \<open>The part of a text after its last occurrence of a character.\<close>

definition after_last :: "char \<Rightarrow> string \<Rightarrow> string" where
  "after_last c s = rev (takeWhile (\<lambda>x. x \<noteq> c) (rev s))"

text \<open>The textual representation of a stored value: the text \<^verbatim>\<open>None\<close> when absent.\<close>

definition text_repr :: "string option \<Rightarrow> string" where
  "text_repr v = (case v of None \<Rightarrow> ''None'' | Some s \<Rightarrow> s)"

text \<open>
  \<open>email_domain\<close> in the specification's words: the part after the last \<open>@\<close> of the
  email, lower-cased, when the textual representation of the email has an \<open>@\<close>; null
  otherwise.
\<close>

definition email_domain_spec :: "string option \<Rightarrow> cell" where
  "email_domain_spec e =
     (if CHR ''@'' \<in> set (text_repr e)
      then CStr (lower (after_last CHR ''@'' (text_repr e))) else CNone)"

subsection \<open>Example data\<close>

text \<open>
  The two users of the specification's end-to-end example as stored rows, a user object
  that carries only an id and a name, and one that has no \<open>id\<close> key.
\<close>

definition row_ann :: stored_row where
  "row_ann = \<lparr>name = Some ''Ann'', username = Some ''ann1'', email = Some ''ann@x.com'',
              phone = Some ''555'', website = Some ''x.com''\<rparr>"

definition row_bo :: stored_row where
  "row_bo = \<lparr>name = Some ''Bo'', username = Some ''bo2'', email = Some ''bo@y.org'',
             phone = None, website = None\<rparr>"

definition user_anna :: user where
  "user_anna = \<lparr>get_id = Some 1, get_name = Some ''Anna'', get_username = None,
                get_email = None, get_phone = None, get_website = None\<rparr>"

definition user_no_id :: user where
  "user_no_id = \<lparr>get_id = None, get_name = Some ''Cy'', get_username = Some ''cy3'',
                 get_email = Some ''cy@z.net'', get_phone = None, get_website = None\<rparr>"

definition row_cy :: stored_row where
  "row_cy = \<lparr>name = Some ''Cy'', username = Some ''cy3'', email = Some ''cy@z.net'',
             phone = None, website = None\<rparr>"

text \<open>A random choice of rowids that always gives up; the examples never reach it.\<close>

definition no_rnd :: "table \<Rightarrow> int option" where
  "no_rnd t = None"

section \<open>Properties\<close>

subsection \<open>Helper lemmas\<close>


lemma split_chr_nonempty: "split_chr sep x \<noteq> []"
  by (induction x) (simp_all split: list.split)

lemma split_chr_no_sep: "sep \<notin> set x \<Longrightarrow> split_chr sep x = [x]"
  by (induction x) auto

lemma split_chr_two_pieces: "sep \<in> set x \<Longrightarrow> tl (split_chr sep x) \<noteq> []"
proof (induction x)
  case Nil
  then show ?case by simp
next
  case (Cons c cs)
  show ?case
  proof (cases "c = sep")
    case True
    then show ?thesis by (simp add: split_chr_nonempty)
  next
    case False
    with Cons.prems have "sep \<in> set cs" by simp
    then have "tl (split_chr sep cs) \<noteq> []" by (rule Cons.IH)
    with False show ?thesis by (cases "split_chr sep cs") simp_all
  qed
qed

lemma after_last_Cons:
  "after_last sep (c # cs) =
     (if sep \<in> set cs then after_last sep cs else if c = sep then cs else c # cs)"
  by (auto simp: after_last_def takeWhile_append)

lemma last_split_chr: "last (split_chr sep x) = after_last sep x"
proof (induction x)
  case Nil
  then show ?case by (simp add: after_last_def)
next
  case (Cons c cs)
  show ?case
  proof (cases "sep \<in> set cs")
    case False
    then show ?thesis by (simp add: split_chr_no_sep after_last_Cons)
  next
    case True
    then have two: "tl (split_chr sep cs) \<noteq> []" by (rule split_chr_two_pieces)
    then obtain p ps where ps: "split_chr sep cs = p # ps" "ps \<noteq> []"
      by (cases "split_chr sep cs") simp_all
    have "last (split_chr sep (c # cs)) = last (split_chr sep cs)"
      using ps by simp
    with True Cons.IH show ?thesis by (simp add: after_last_Cons)
  qed
qed


lemma email_domain_fn_spec: "email_domain_fn (py_str (opt_cell e)) = email_domain_spec e"
  by (cases e) (simp_all add: email_domain_fn_def email_domain_spec_def opt_cell_def text_repr_def last_split_chr)

lemma derive_read_sql_query:
  "derive (read_sql_query t) = Inr
     [(''id'', map (\<lambda>p. CInt (fst p)) t),
      (''name'', map (\<lambda>p. opt_cell (name (snd p))) t),
      (''username'', map (\<lambda>p. opt_cell (username (snd p))) t),
      (''email'', map (\<lambda>p. opt_cell (email (snd p))) t),
      (''phone'', map (\<lambda>p. opt_cell (phone (snd p))) t),
      (''website'', map (\<lambda>p. opt_cell (website (snd p))) t),
      (''name_length'', apply_len (astype_str (map (\<lambda>p. opt_cell (name (snd p))) t))),
      (''email_domain'', map email_domain_fn (astype_str (map (\<lambda>p. opt_cell (email (snd p))) t))),
      (''username_length'', apply_len (astype_str (map (\<lambda>p. opt_cell (username (snd p))) t))),
      (''company_name_length'', apply_len (astype_str (map (\<lambda>p. opt_cell (name (snd p))) t)))]"
  by (simp add: derive_def read_sql_query_def getitem_def)

text \<open>
  The tables the script can leave behind are in rowid order: the empty table is, and
  every insert keeps the order (\<open>wf_insert_or_replace\<close>, \<open>upsert_all_wf\<close> below).
\<close>

lemma wf_table_empty: "wf_table []"
  by (simp add: wf_table_def)

lemma map_of_insert_or_replace:
  "map_of (insert_or_replace k r t) = (map_of t)(k \<mapsto> r)"
  by (induction t) (auto simp: fun_eq_iff)

lemma keys_insert_or_replace:
  "fst ` set (insert_or_replace k r t) = insert k (fst ` set t)"
  by (simp add: dom_map_of_conv_image_fst [symmetric] map_of_insert_or_replace)

lemma wf_insert_or_replace:
  "wf_table t \<Longrightarrow> wf_table (insert_or_replace k r t)"
  unfolding wf_table_def
proof (induction t)
  case Nil
  then show ?case by simp
next
  case (Cons p t)
  obtain k' r' where p: "p = (k', r')" by (cases p)
  from Cons.prems have t: "sorted_wrt (<) (map fst t)" and lt: "\<forall>x \<in> fst ` set t. k' < x"
    by (auto simp: p)
  show ?case
  proof (cases "k < k'")
    case True
    with Cons.prems show ?thesis by (auto simp: p)
  next
    case False
    show ?thesis
    proof (cases "k = k'")
      case True
      with Cons.prems show ?thesis by (auto simp: p)
    next
      case ne: False
      with False have "k' < k" by simp
      with lt have "\<forall>x \<in> fst ` set (insert_or_replace k r t). k' < x"
        by (simp add: keys_insert_or_replace)
      with Cons.IH [OF t] False ne show ?thesis by (auto simp: p)
    qed
  qed
qed

lemma wf_last_max: "wf_table t \<Longrightarrow> t \<noteq> [] \<Longrightarrow> x \<in> fst ` set t \<Longrightarrow> x \<le> fst (last t)"
proof (induction t)
  case Nil
  then show ?case by simp
next
  case (Cons p t)
  show ?case
  proof (cases "t = []")
    case True
    with Cons.prems show ?thesis by simp
  next
    case False
    from Cons.prems have wf: "wf_table t" and lt: "\<forall>y \<in> set t. fst p < fst y"
      by (simp_all add: wf_table_def)
    from False have "last t \<in> set t" by simp
    with lt have "fst p < fst (last t)" by blast
    with Cons.IH [OF wf False] Cons.prems(3) False show ?thesis by auto
  qed
qed

lemma new_rowid_fresh:
  "wf_table t \<Longrightarrow> new_rowid rnd t = Inr k \<Longrightarrow> k \<notin> fst ` set t"
  using wf_last_max [of t k]
  by (auto simp: new_rowid_def split: if_splits option.splits)



lemma wf_table_distinct: "wf_table t \<Longrightarrow> distinct (map fst t)"
  by (simp add: wf_table_def strict_sorted_iff)

lemma table_from_map_of:
  assumes "distinct (map fst t)"
  shows "map (\<lambda>k. (k, the (map_of t k))) (map fst t) = t"
proof -
  have "map (\<lambda>p. (fst p, the (map_of t (fst p)))) t = t"
  proof (rule map_idI)
    fix p assume "p \<in> set t"
    then have "(fst p, snd p) \<in> set t" by simp
    with assms have "map_of t (fst p) = Some (snd p)" by (simp only: map_of_eq_Some_iff)
    then show "(fst p, the (map_of t (fst p))) = p" by simp
  qed
  then show ?thesis by (simp add: comp_def)
qed

lemma wf_table_unique:
  assumes "wf_table t1" "wf_table t2" "map_of t1 = map_of t2"
  shows "t1 = t2"
proof -
  have "set (map fst t1) = set (map fst t2)"
    using assms(3) by (simp add: dom_map_of_conv_image_fst [symmetric])
  moreover have "sorted (map fst t1)" "distinct (map fst t1)" "sorted (map fst t2)" "distinct (map fst t2)"
    using assms(1,2) by (simp_all add: wf_table_def strict_sorted_iff)
  ultimately have keys: "map fst t1 = map fst t2"
    by (simp only: sorted_distinct_set_unique)
  have "t1 = map (\<lambda>k. (k, the (map_of t1 k))) (map fst t1)"
    using table_from_map_of [OF wf_table_distinct [OF assms(1)]] by simp
  also have "\<dots> = map (\<lambda>k. (k, the (map_of t2 k))) (map fst t2)"
    by (simp only: keys assms(3))
  also have "\<dots> = t2"
    using table_from_map_of [OF wf_table_distinct [OF assms(2)]] by simp
  finally show ?thesis .
qed

lemma execute_insert_cases:
  assumes "execute_insert rnd u t = Inr t'"
  obtains k where "t' = insert_or_replace k (snd (params u)) t"
    and "get_id u = Some k \<or> (get_id u = None \<and> new_rowid rnd t = Inr k)"
  using assms
  by (auto simp: execute_insert_def params_def split: option.splits sum.splits if_splits)

lemma execute_insert_wf:
  "wf_table t \<Longrightarrow> execute_insert rnd u t = Inr t' \<Longrightarrow> wf_table t'"
  by (erule execute_insert_cases) (simp add: wf_insert_or_replace)

lemma execute_insert_keys:
  "execute_insert rnd u t = Inr t' \<Longrightarrow> fst ` set t \<subseteq> fst ` set t'"
  by (erule execute_insert_cases) (auto simp: keys_insert_or_replace)

lemma execute_insert_keeps:
  assumes "wf_table t" "execute_insert rnd u t = Inr t'" "get_id u \<noteq> Some k" "map_of t k = Some r"
  shows "map_of t' k = Some r"
proof -
  from assms(2) obtain j where t': "t' = insert_or_replace j (snd (params u)) t"
    and j: "get_id u = Some j \<or> (get_id u = None \<and> new_rowid rnd t = Inr j)"
    by (rule execute_insert_cases)
  from assms(4) have "k \<in> fst ` set t"
    by (metis domI dom_map_of_conv_image_fst)
  with j assms(1,3) new_rowid_fresh [of t rnd j] have "j \<noteq> k" by auto
  with assms(4) show ?thesis by (simp add: t' map_of_insert_or_replace)
qed

lemma upsert_all_wf:
  "wf_table t \<Longrightarrow> upsert_all rnd us t = Inr t' \<Longrightarrow> wf_table t'"
proof (induction us arbitrary: t)
  case Nil
  then show ?case by simp
next
  case (Cons u us)
  from Cons.prems(2) obtain t1 where 1: "execute_insert rnd u t = Inr t1"
    and 2: "upsert_all rnd us t1 = Inr t'"
    by (auto split: sum.splits)
  from Cons.prems(1) 1 have "wf_table t1" by (rule execute_insert_wf)
  then show ?case using 2 by (rule Cons.IH)
qed

lemma upsert_all_keys:
  "upsert_all rnd us t = Inr t' \<Longrightarrow> fst ` set t \<subseteq> fst ` set t'"
proof (induction us arbitrary: t)
  case Nil
  then show ?case by simp
next
  case (Cons u us)
  from Cons.prems obtain t1 where 1: "execute_insert rnd u t = Inr t1"
    and 2: "upsert_all rnd us t1 = Inr t'"
    by (auto split: sum.splits)
  from execute_insert_keys [OF 1] Cons.IH [OF 2] show ?case by blast
qed

lemma upsert_all_keeps:
  "wf_table t \<Longrightarrow> upsert_all rnd us t = Inr t' \<Longrightarrow> \<forall>u \<in> set us. get_id u \<noteq> Some k \<Longrightarrow>
   map_of t k = Some r \<Longrightarrow> map_of t' k = Some r"
proof (induction us arbitrary: t)
  case Nil
  then show ?case by simp
next
  case (Cons u us)
  from Cons.prems(2) obtain t1 where 1: "execute_insert rnd u t = Inr t1"
    and 2: "upsert_all rnd us t1 = Inr t'"
    by (auto split: sum.splits)
  from Cons.prems(1) 1 have wf1: "wf_table t1" by (rule execute_insert_wf)
  from Cons.prems(3) have u: "get_id u \<noteq> Some k" and us: "\<forall>u \<in> set us. get_id u \<noteq> Some k"
    by simp_all
  from Cons.prems(1) 1 u Cons.prems(4) have "map_of t1 k = Some r" by (rule execute_insert_keeps)
  with wf1 2 us show ?case by (rule Cons.IH)
qed

lemma upsert_all_append:
  "upsert_all rnd (us @ vs) t =
     (case upsert_all rnd us t of Inl e \<Rightarrow> Inl e | Inr t' \<Rightarrow> upsert_all rnd vs t')"
  by (induction us arbitrary: t) (simp_all split: sum.splits)

lemma derived_column_email_domain:
  "derived_column t ''email_domain'' =
     Inr (map email_domain_fn (astype_str (map (\<lambda>p. opt_cell (email (snd p))) t)))"
  by (simp add: derived_column_def derive_read_sql_query getitem_def)

lemma derived_column_name_length:
  "derived_column t ''name_length'' =
     Inr (apply_len (astype_str (map (\<lambda>p. opt_cell (name (snd p))) t)))"
  by (simp add: derived_column_def derive_read_sql_query getitem_def)

lemma derived_column_username_length:
  "derived_column t ''username_length'' =
     Inr (apply_len (astype_str (map (\<lambda>p. opt_cell (username (snd p))) t)))"
  by (simp add: derived_column_def derive_read_sql_query getitem_def)

lemma derived_column_company_name_length:
  "derived_column t ''company_name_length'' =
     Inr (apply_len (astype_str (map (\<lambda>p. opt_cell (name (snd p))) t)))"
  by (simp add: derived_column_def derive_read_sql_query getitem_def)

lemma length_py_str_opt_cell:
  "int (length (py_str (opt_cell v))) = (case v of None \<Rightarrow> 4 | Some s \<Rightarrow> int (length s))"
  by (cases v) (simp_all add: opt_cell_def)

lemma filter_key_distinct:
  "distinct (map fst t) \<Longrightarrow> map_of t k = Some r \<Longrightarrow> filter (\<lambda>p. fst p = k) t = [(k, r)]"
proof (induction t)
  case Nil
  then show ?case by simp
next
  case (Cons p t)
  show ?case
  proof (cases "fst p = k")
    case True
    with Cons.prems have "k \<notin> fst ` set t" and "snd p = r" by auto
    then have "filter (\<lambda>p. fst p = k) t = []" by (auto simp: filter_empty_conv)
    with True \<open>snd p = r\<close> show ?thesis by (cases p) simp
  next
    case False
    with Cons show ?thesis by (cases p) simp
  qed
qed

lemma execute_insert_Some:
  "get_id u = Some k \<Longrightarrow> execute_insert rnd u t = Inr t' \<Longrightarrow>
   t' = insert_or_replace k (snd (params u)) t"
  by (auto simp: execute_insert_def params_def split: if_splits)

lemma upsert_all_returns:
  "\<forall>u \<in> set us. \<exists>k. get_id u = Some k \<and> min_rowid \<le> k \<and> k \<le> max_rowid \<Longrightarrow>
   \<exists>t'. upsert_all rnd us t = Inr t'"
proof (induction us arbitrary: t)
  case Nil
  then show ?case by simp
next
  case (Cons u us)
  from Cons.prems obtain k where "get_id u = Some k" "min_rowid \<le> k" "k \<le> max_rowid"
    by auto
  then have "execute_insert rnd u t = Inr (insert_or_replace k (snd (params u)) t)"
    by (simp add: execute_insert_def params_def)
  moreover from Cons.prems have "\<forall>u \<in> set us. \<exists>k. get_id u = Some k \<and> min_rowid \<le> k \<and> k \<le> max_rowid"
    by simp
  then have "\<exists>t'. upsert_all rnd us (insert_or_replace k (snd (params u)) t) = Inr t'"
    by (rule Cons.IH)
  ultimately show ?case by simp
qed

lemma upsert_all_map_of:
  "\<forall>u \<in> set us. get_id u \<noteq> None \<Longrightarrow> upsert_all rnd us t = Inr t' \<Longrightarrow>
   map_of t' = map_of t ++ map_of (rev (map (\<lambda>u. (the (get_id u), snd (params u))) us))"
proof (induction us arbitrary: t)
  case Nil
  then show ?case by simp
next
  case (Cons u us)
  from Cons.prems(1) obtain k where k: "get_id u = Some k" by auto
  from Cons.prems(2) obtain t1 where 1: "execute_insert rnd u t = Inr t1"
    and 2: "upsert_all rnd us t1 = Inr t'"
    by (auto split: sum.splits)
  from k 1 have t1: "t1 = insert_or_replace k (snd (params u)) t" by (rule execute_insert_Some)
  from Cons.prems(1) have "\<forall>u \<in> set us. get_id u \<noteq> None" by simp
  from Cons.IH [OF this 2]
  have "map_of t' =
      (map_of t)(k \<mapsto> snd (params u)) ++ map_of (rev (map (\<lambda>u. (the (get_id u), snd (params u))) us))"
    by (simp only: t1 map_of_insert_or_replace)
  also have "\<dots> = map_of t ++
      map_of (rev (map (\<lambda>u. (the (get_id u), snd (params u))) (u # us)))"
    by (rule ext) (simp add: k map_add_def split: option.splits)
  finally show ?case .
qed

lemma upsert_all_returns_again:
  "\<forall>u \<in> set us. get_id u \<noteq> None \<Longrightarrow> upsert_all rnd us t = Inr t' \<Longrightarrow>
   \<exists>s'. upsert_all rnd us s = Inr s'"
proof (induction us arbitrary: t s)
  case Nil
  then show ?case by simp
next
  case (Cons u us)
  from Cons.prems(1) obtain k where k: "get_id u = Some k" by auto
  from Cons.prems(2) obtain t1 where 1: "execute_insert rnd u t = Inr t1"
    and 2: "upsert_all rnd us t1 = Inr t'"
    by (auto split: sum.splits)
  from k 1 have "\<not> (k < min_rowid \<or> max_rowid < k)"
    by (auto simp: execute_insert_def params_def split: if_splits)
  with k have "execute_insert rnd u s = Inr (insert_or_replace k (snd (params u)) s)"
    by (simp add: execute_insert_def params_def)
  moreover from Cons.prems(1) have "\<forall>u \<in> set us. get_id u \<noteq> None" by simp
  from Cons.IH [OF this 2]
  have "\<exists>s'. upsert_all rnd us (insert_or_replace k (snd (params u)) s) = Inr s'" .
  ultimately show ?case by simp
qed

lemma insert_or_replace_fresh:
  "k \<notin> fst ` set t \<Longrightarrow>
   set (insert_or_replace k r t) = insert (k, r) (set t)
   \<and> length (insert_or_replace k r t) = Suc (length t)"
proof (induction t)
  case Nil
  then show ?case by simp
next
  case (Cons p t)
  obtain k' r' where p: "p = (k', r')" by (cases p)
  from Cons.prems have ne: "k \<noteq> k'" and fresh: "k \<notin> fst ` set t" by (auto simp: p)
  from Cons.IH [OF fresh] ne show ?case by (auto simp: p)
qed

lemma fetch_raises_iff:
  "(\<exists>e. fetch g = Inl e) \<longleftrightarrow>
     (\<exists>e. g = Inl e)
     \<or> (\<exists>r. g = Inr r \<and> (400 \<le> status_code r \<and> status_code r < 600 \<or> json r = None))"
  by (cases g) (auto simp: fetch_def raise_for_status_def split: option.splits)

section \<open>The claims about the derived columns\<close>

text \<open>
  C1. For every stored row the derived \<open>email_domain\<close> is the part of the email after
  its last \<open>@\<close>, lower-cased, when the textual representation of the email contains an
  \<open>@\<close>, and null otherwise: the column the script computes is, row by row, the value
  \<open>email_domain_spec\<close> gives for the stored email. In particular \<^verbatim>\<open>a@B.COM\<close> gives
  \<^verbatim>\<open>b.com\<close>, \<^verbatim>\<open>no-at-sign\<close> gives null and a null email gives null.
\<close>

theorem email_domain_after_last_at:
  "derived_column t ''email_domain'' = Inr (map (\<lambda>p. email_domain_spec (email (snd p))) t)
   \<and> email_domain_fn (py_str (opt_cell (Some ''a@B.COM''))) = CStr ''b.com''
   \<and> email_domain_fn (py_str (opt_cell (Some ''no-at-sign''))) = CNone
   \<and> email_domain_fn (py_str (opt_cell None)) = CNone"
proof -
  have "derived_column t ''email_domain'' = Inr (map (\<lambda>p. email_domain_spec (email (snd p))) t)"
    by (simp add: derived_column_email_domain astype_str_def email_domain_fn_spec comp_def)
  moreover have "email_domain_fn (py_str (opt_cell (Some ''a@B.COM''))) = CStr ''b.com''"
    by code_simp
  moreover have "email_domain_fn (py_str (opt_cell (Some ''no-at-sign''))) = CNone"
    by code_simp
  moreover have "email_domain_fn (py_str (opt_cell None)) = CNone"
    by code_simp
  ultimately show ?thesis by simp
qed

theorem email_domain_after_last_at_witness:
  "derived_column
     [(1, \<lparr>name = Some ''Ann'', username = Some ''ann1'', email = Some ''a@B.COM'',
           phone = None, website = None\<rparr>),
      (2, \<lparr>name = Some ''Bo'', username = Some ''bo2'', email = Some ''no-at-sign'',
           phone = None, website = None\<rparr>),
      (3, \<lparr>name = None, username = None, email = None, phone = None, website = None\<rparr>)]
     ''email_domain'' = Inr [CStr ''b.com'', CNone, CNone]"
proof -
  have "email_domain_spec (Some ''a@B.COM'') = CStr ''b.com''"
    and "email_domain_spec (Some ''no-at-sign'') = CNone"
    and "email_domain_spec None = CNone"
    by code_simp+
  then show ?thesis
    using email_domain_after_last_at
      [of "[(1, \<lparr>name = Some ''Ann'', username = Some ''ann1'', email = Some ''a@B.COM'',
           phone = None, website = None\<rparr>),
      (2, \<lparr>name = Some ''Bo'', username = Some ''bo2'', email = Some ''no-at-sign'',
           phone = None, website = None\<rparr>),
      (3, \<lparr>name = None, username = None, email = None, phone = None, website = None\<rparr>)]"]
    by simp
qed

text \<open>
  C2. For every stored row whose name is null the derived \<open>name_length\<close> is 4, the
  number of characters of the text \<^verbatim>\<open>None\<close>, and otherwise the number of characters
  of the name; \<open>username_length\<close> follows the same rule on the username.
\<close>

theorem null_name_has_length_4:
  "derived_column t ''name_length'' =
     Inr (map (\<lambda>p. case name (snd p) of None \<Rightarrow> CInt 4 | Some s \<Rightarrow> CInt (int (length s))) t)
   \<and> derived_column t ''username_length'' =
     Inr (map (\<lambda>p. case username (snd p) of None \<Rightarrow> CInt 4 | Some s \<Rightarrow> CInt (int (length s))) t)"
  by (simp add: derived_column_name_length derived_column_username_length astype_str_def
      apply_len_def comp_def length_py_str_opt_cell split: option.split)

theorem null_name_has_length_4_witness:
  "derived_column
     [(7, \<lparr>name = None, username = None, email = Some ''x@y.org'', phone = None,
           website = None\<rparr>)] ''name_length'' = Inr [CInt 4]
   \<and> derived_column
     [(7, \<lparr>name = None, username = None, email = Some ''x@y.org'', phone = None,
           website = None\<rparr>)] ''username_length'' = Inr [CInt 4]"
  using null_name_has_length_4
    [of "[(7, \<lparr>name = None, username = None, email = Some ''x@y.org'', phone = None,
           website = None\<rparr>)]"]
  by simp

text \<open>
  C7. The derivation of the frame read from an empty table raises no error and gives a
  frame without rows that has all ten columns: the six stored ones followed by
  \<open>name_length\<close>, \<open>email_domain\<close>, \<open>username_length\<close> and \<open>company_name_length\<close>.
\<close>

theorem derive_empty_table:
  "derive (read_sql_query []) =
     Inr [(''id'', []), (''name'', []), (''username'', []), (''email'', []), (''phone'', []),
          (''website'', []), (''name_length'', []), (''email_domain'', []),
          (''username_length'', []), (''company_name_length'', [])]"
  by (simp add: derive_read_sql_query astype_str_def apply_len_def)

text \<open>
  C8. For every table the column \<open>company_name_length\<close> is the column \<open>name_length\<close>:
  both are the number of characters of the textual representation of the stored name.
\<close>

theorem company_name_length_is_name_length:
  "\<exists>col. derived_column t ''company_name_length'' = Inr col
     \<and> derived_column t ''name_length'' = Inr col
     \<and> col = map (\<lambda>p. CInt (int (length (text_repr (name (snd p)))))) t"
  by (simp add: derived_column_name_length derived_column_company_name_length astype_str_def
      apply_len_def comp_def length_py_str_opt_cell text_repr_def split: option.split)

text \<open>
  C10, as amended. For every stored row whose email, in its textual representation, ends
  in \<open>@\<close>, the derived \<open>email_domain\<close> is the empty text and not null. The derived
  \<open>email_domain\<close> of a row is null exactly when the textual representation of its
  email has no \<open>@\<close>.
\<close>

theorem email_ending_in_at_gives_empty_domain:
  assumes "i < length t"
  shows "\<exists>col. derived_column t ''email_domain'' = Inr col \<and> length col = length t
    \<and> (\<forall>pre. text_repr (email (snd (t ! i))) = pre @ ''@'' \<longrightarrow> col ! i = CStr '''')
    \<and> (col ! i = CNone \<longleftrightarrow> CHR ''@'' \<notin> set (text_repr (email (snd (t ! i)))))"
proof -
  let ?col = "map (\<lambda>p. email_domain_spec (email (snd p))) t"
  have col: "derived_column t ''email_domain'' = Inr ?col"
    by (simp add: derived_column_email_domain astype_str_def email_domain_fn_spec comp_def)
  have i: "?col ! i = email_domain_spec (email (snd (t ! i)))"
    using assms by simp
  have "email_domain_spec e = CStr ''''" if "text_repr e = pre @ ''@''" for e pre
    using that by (simp add: email_domain_spec_def after_last_def lower_def)
  moreover have "email_domain_spec e = CNone \<longleftrightarrow> CHR ''@'' \<notin> set (text_repr e)" for e
    by (simp add: email_domain_spec_def)
  ultimately show ?thesis using col i by auto
qed

theorem email_ending_in_at_gives_empty_domain_witness:
  "derived_column
     [(1, \<lparr>name = Some ''Ann'', username = Some ''ann1'', email = Some ''a@'',
            phone = None, website = None\<rparr>)] ''email_domain'' = Inr [CStr '''']"
proof -
  let ?t = "[(1::int, \<lparr>name = Some ''Ann'', username = Some ''ann1'', email = Some ''a@'',
            phone = None, website = None\<rparr>)]"
  have "0 < length ?t" by simp
  from email_ending_in_at_gives_empty_domain [OF this]
  obtain col where "derived_column ?t ''email_domain'' = Inr col" "length col = length ?t"
    and "\<forall>pre. text_repr (email (snd (?t ! 0))) = pre @ ''@'' \<longrightarrow> col ! 0 = CStr ''''"
    by blast
  moreover have "text_repr (email (snd (?t ! 0))) = ''a'' @ ''@''"
    by (simp add: text_repr_def)
  ultimately have "derived_column ?t ''email_domain'' = Inr col" "length col = 1"
    "col ! 0 = CStr ''''"
    by (simp, simp, blast)
  then show ?thesis by (cases col) simp_all
qed

text \<open>
  C10 as stated ends with the sentence that a null \<open>email_domain\<close> does not imply that
  the email lacked an \<open>@\<close>. The function of line 95 returns \<^verbatim>\<open>None\<close> only in the
  branch where \<open>@\<close> is not in the text, so no email gives a null domain and has an \<open>@\<close>.
\<close>

theorem null_domain_with_at_counterexample:
  "\<not> (\<exists>e. email_domain_fn (py_str (opt_cell e)) = CNone
          \<and> CHR ''@'' \<in> set (py_str (opt_cell e)))"
  by (simp add: email_domain_fn_def)

section \<open>The claims about the store\<close>

text \<open>
  C3. Upserting a user whose id is \<open>k\<close> replaces the whole row: when the run commits,
  the table has exactly one row with the rowid \<open>k\<close>, and its five columns are the five
  values of the last user object of the sequence that carries the id \<open>k\<close>, a NULL where
  that object lacks the key. Nothing of the row that was stored under \<open>k\<close> before is
  kept. (By \<open>upsert_all_returns\<close> the run commits whenever every id of the sequence is
  present and fits 64 bits.)
\<close>

theorem upsert_replaces_whole_row:
  assumes "wf_table t"
    and "upsert_all rnd (pre @ u # post) t = Inr t'"
    and "get_id u = Some k"
    and "\<forall>v \<in> set post. get_id v \<noteq> Some k"
  shows "filter (\<lambda>p. fst p = k) t' =
           [(k, \<lparr>name = get_name u, username = get_username u, email = get_email u,
                 phone = get_phone u, website = get_website u\<rparr>)]"
proof -
  let ?r = "\<lparr>name = get_name u, username = get_username u, email = get_email u,
             phone = get_phone u, website = get_website u\<rparr>"
  from assms(2) obtain t0 where pre: "upsert_all rnd pre t = Inr t0"
    and rest: "upsert_all rnd (u # post) t0 = Inr t'"
    by (auto simp: upsert_all_append split: sum.splits)
  from rest obtain t1 where one: "execute_insert rnd u t0 = Inr t1"
    and post: "upsert_all rnd post t1 = Inr t'"
    by (auto split: sum.splits)
  from assms(1) pre have wf0: "wf_table t0" by (rule upsert_all_wf)
  from wf0 one have wf1: "wf_table t1" by (rule execute_insert_wf)
  from wf1 post have wf': "wf_table t'" by (rule upsert_all_wf)
  from assms(3) one have "t1 = insert_or_replace k (snd (params u)) t0"
    by (rule execute_insert_Some)
  then have "map_of t1 k = Some ?r"
    by (simp add: map_of_insert_or_replace params_def)
  with wf1 post assms(4) have "map_of t' k = Some ?r" by (rule upsert_all_keeps)
  with wf_table_distinct [OF wf'] show ?thesis by (rule filter_key_distinct)
qed

theorem upsert_replaces_whole_row_witness:
  "wf_table [(1, row_ann), (2, row_bo)]
   \<and> upsert_all no_rnd [user_anna] [(1, row_ann), (2, row_bo)]
       = Inr [(1, \<lparr>name = Some ''Anna'', username = None, email = None, phone = None,
                    website = None\<rparr>), (2, row_bo)]
   \<and> filter (\<lambda>p. fst p = 1)
        [(1::int, \<lparr>name = Some ''Anna'', username = None, email = None, phone = None,
                    website = None\<rparr>), (2, row_bo)]
       = [(1, \<lparr>name = Some ''Anna'', username = None, email = None, phone = None,
                 website = None\<rparr>)]"
proof -
  let ?t' = "[(1::int, \<lparr>name = Some ''Anna'', username = None, email = None, phone = None,
                  website = None\<rparr>), (2, row_bo)]"
  have wf: "wf_table [(1, row_ann), (2, row_bo)]" by (simp add: wf_table_def)
  have up: "upsert_all no_rnd ([] @ user_anna # []) [(1, row_ann), (2, row_bo)] = Inr ?t'"
    by (simp add: execute_insert_def params_def min_rowid_def max_rowid_def user_anna_def)
  have id: "get_id user_anna = Some 1" by (simp add: user_anna_def)
  have post: "\<forall>v \<in> set []. get_id v \<noteq> Some (1::int)" by simp
  from upsert_replaces_whole_row [OF wf up id post] wf up show ?thesis
    by (simp add: user_anna_def)
qed

text \<open>
  C4, as amended. When every user object of the sequence carries an id, upserting the
  sequence a second time leaves the table, and so the frame read back from it, as the
  first upsert left it.
\<close>

theorem upsert_twice_is_upsert_once:
  assumes "wf_table t" and "\<forall>u \<in> set us. get_id u \<noteq> None"
  shows "committed rnd us (committed rnd us t) = committed rnd us t
    \<and> read_sql_query (committed rnd us (committed rnd us t)) = read_sql_query (committed rnd us t)"
proof (cases "upsert_all rnd us t")
  case (Inl e)
  then show ?thesis by (simp add: committed_def)
next
  case (Inr t1)
  from assms(2) Inr obtain t2 where 2: "upsert_all rnd us t1 = Inr t2"
    using upsert_all_returns_again by blast
  let ?f = "map_of (rev (map (\<lambda>u. (the (get_id u), snd (params u))) us))"
  from assms(2) Inr have m1: "map_of t1 = map_of t ++ ?f" by (rule upsert_all_map_of)
  from assms(2) 2 have "map_of t2 = map_of t1 ++ ?f" by (rule upsert_all_map_of)
  moreover have "(map_of t ++ ?f) ++ ?f = map_of t ++ ?f"
    by (rule ext) (simp add: map_add_def split: option.splits)
  ultimately have "map_of t2 = map_of t1"
    using m1 by simp
  moreover from assms(1) Inr have wf1: "wf_table t1" by (rule upsert_all_wf)
  moreover from wf1 2 have "wf_table t2" by (rule upsert_all_wf)
  ultimately have "t2 = t1" by (simp add: wf_table_unique)
  with Inr 2 show ?thesis by (simp add: committed_def)
qed

theorem upsert_twice_is_upsert_once_witness:
  "committed no_rnd [user_anna] (committed no_rnd [user_anna] [(1, row_ann), (2, row_bo)])
     = committed no_rnd [user_anna] [(1, row_ann), (2, row_bo)]
   \<and> committed no_rnd [user_anna] [(1, row_ann), (2, row_bo)]
     = [(1, \<lparr>name = Some ''Anna'', username = None, email = None, phone = None,
              website = None\<rparr>), (2, row_bo)]"
proof -
  have wf: "wf_table [(1, row_ann), (2, row_bo)]" by (simp add: wf_table_def)
  have ids: "\<forall>u \<in> set [user_anna]. get_id u \<noteq> None" by (simp add: user_anna_def)
  have "committed no_rnd [user_anna] [(1, row_ann), (2, row_bo)]
     = [(1, \<lparr>name = Some ''Anna'', username = None, email = None, phone = None,
              website = None\<rparr>), (2, row_bo)]"
    by (simp add: committed_def execute_insert_def params_def min_rowid_def
        max_rowid_def user_anna_def)
  with upsert_twice_is_upsert_once [OF wf ids, of no_rnd] show ?thesis by simp
qed

text \<open>
  C4 as stated fails for a user object without an id: on the empty table the first
  upsert stores it under the rowid 1 and the second stores it again under the rowid 2.
\<close>

theorem upsert_twice_counterexample:
  "set (committed no_rnd [user_no_id] (committed no_rnd [user_no_id] []))
     \<noteq> set (committed no_rnd [user_no_id] [])
   \<and> read_sql_query (committed no_rnd [user_no_id] (committed no_rnd [user_no_id] []))
     \<noteq> read_sql_query (committed no_rnd [user_no_id] [])"
proof -
  have 1: "committed no_rnd [user_no_id] [] = [(1, row_cy)]"
    by (simp add: committed_def execute_insert_def params_def new_rowid_def user_no_id_def
        row_cy_def)
  have 2: "committed no_rnd [user_no_id] [(1, row_cy)] = [(1, row_cy), (2, row_cy)]"
    by (simp add: committed_def execute_insert_def params_def new_rowid_def user_no_id_def
        row_cy_def max_rowid_def)
  show ?thesis by (simp add: 1 2 read_sql_query_def)
qed

text \<open>
  C5. For every table and every upserted sequence, whether the run commits or not, every
  rowid of the table is still a rowid of the table afterwards, and a row whose id no
  user object of the sequence carries is still there with the same five columns.
\<close>

theorem upsert_keeps_other_rows:
  assumes "wf_table t"
  shows "fst ` set t \<subseteq> fst ` set (committed rnd us t)
    \<and> (\<forall>k r. map_of t k = Some r \<and> (\<forall>u \<in> set us. get_id u \<noteq> Some k)
          \<longrightarrow> map_of (committed rnd us t) k = Some r)"
proof (cases "upsert_all rnd us t")
  case (Inl e)
  then show ?thesis by (simp add: committed_def)
next
  case (Inr t')
  then have c: "committed rnd us t = t'" by (simp add: committed_def)
  from Inr have "fst ` set t \<subseteq> fst ` set t'" by (rule upsert_all_keys)
  moreover have "map_of t' k = Some r"
    if "map_of t k = Some r" "\<forall>u \<in> set us. get_id u \<noteq> Some k" for k r
    using assms Inr that(2,1) by (rule upsert_all_keeps)
  ultimately show ?thesis unfolding c by blast
qed

theorem upsert_keeps_other_rows_witness:
  "committed no_rnd [user_anna, user_no_id] [(1, row_ann), (2, row_bo)]
     = [(1, \<lparr>name = Some ''Anna'', username = None, email = None, phone = None,
              website = None\<rparr>), (2, row_bo), (3, row_cy)]
   \<and> map_of (committed no_rnd [user_anna, user_no_id] [(1, row_ann), (2, row_bo)]) 2
     = Some row_bo"
proof -
  have wf: "wf_table [(1, row_ann), (2, row_bo)]" by (simp add: wf_table_def)
  have c: "committed no_rnd [user_anna, user_no_id] [(1, row_ann), (2, row_bo)]
     = [(1, \<lparr>name = Some ''Anna'', username = None, email = None, phone = None,
              website = None\<rparr>), (2, row_bo), (3, row_cy)]"
    by (simp add: committed_def execute_insert_def params_def new_rowid_def min_rowid_def
        max_rowid_def user_anna_def user_no_id_def row_cy_def)
  have "map_of [(1::int, row_ann), (2, row_bo)] 2 = Some row_bo
      \<and> (\<forall>u \<in> set [user_anna, user_no_id]. get_id u \<noteq> Some 2)"
    by (simp add: user_anna_def user_no_id_def)
  with upsert_keeps_other_rows [OF wf, of no_rnd "[user_anna, user_no_id]"]
  have "map_of (committed no_rnd [user_anna, user_no_id] [(1, row_ann), (2, row_bo)]) 2
     = Some row_bo" by blast
  with c show ?thesis by simp
qed

text \<open>
  C9. A user object without an id is stored under a fresh rowid: on the empty table
  one upsert of it leaves the row under the rowid 1, and the same upsert again leaves a
  second copy under the rowid 2, so the upsert is not idempotent. On any table whose
  rows are in rowid order an upsert of it that commits adds exactly one row, under a
  rowid the table did not have.
\<close>

theorem null_id_upsert_adds_a_row:
  assumes "get_id u = None"
  shows "committed rnd [u] [] = [(1, snd (params u))]
    \<and> committed rnd [u] (committed rnd [u] []) = [(1, snd (params u)), (2, snd (params u))]
    \<and> (\<forall>t t'. wf_table t \<and> upsert_all rnd [u] t = Inr t' \<longrightarrow>
          (\<exists>k. k \<notin> fst ` set t \<and> set t' = insert (k, snd (params u)) (set t)
                \<and> length t' = Suc (length t)))"
proof -
  have 1: "committed rnd [u] [] = [(1, snd (params u))]"
    using assms by (simp add: committed_def execute_insert_def params_def new_rowid_def)
  have 2: "committed rnd [u] [(1, snd (params u))] = [(1, snd (params u)), (2, snd (params u))]"
    using assms
    by (simp add: committed_def execute_insert_def params_def new_rowid_def max_rowid_def)
  have 3: "\<exists>k. k \<notin> fst ` set t \<and> set t' = insert (k, snd (params u)) (set t)
                \<and> length t' = Suc (length t)"
    if wf: "wf_table t" and up: "upsert_all rnd [u] t = Inr t'" for t t'
  proof -
    from up have ex: "execute_insert rnd u t = Inr t'" by (simp split: sum.splits)
    then obtain k where t': "t' = insert_or_replace k (snd (params u)) t"
      and "get_id u = Some k \<or> (get_id u = None \<and> new_rowid rnd t = Inr k)"
      by (rule execute_insert_cases)
    with assms have "new_rowid rnd t = Inr k" by simp
    with wf have "k \<notin> fst ` set t" by (rule new_rowid_fresh)
    with insert_or_replace_fresh [OF this, of "snd (params u)"] t' show ?thesis by blast
  qed
  from 1 2 3 show ?thesis by (simp only:) blast
qed

theorem null_id_upsert_adds_a_row_witness:
  "committed no_rnd [user_no_id] [] = [(1, row_cy)]
   \<and> committed no_rnd [user_no_id] (committed no_rnd [user_no_id] [])
       = [(1, row_cy), (2, row_cy)]"
proof -
  have "get_id user_no_id = None" by (simp add: user_no_id_def)
  from null_id_upsert_adds_a_row [OF this, of no_rnd]
  have "committed no_rnd [user_no_id] [] = [(1, snd (params user_no_id))]"
    and "committed no_rnd [user_no_id] (committed no_rnd [user_no_id] [])
       = [(1, snd (params user_no_id)), (2, snd (params user_no_id))]"
    by blast+
  moreover have "snd (params user_no_id) = row_cy"
    by (simp add: params_def user_no_id_def row_cy_def)
  ultimately show ?thesis by simp
qed

section \<open>The claim about a failed fetch\<close>

text \<open>
  C6, as amended. When the fetch fails, that is when \<^verbatim>\<open>requests.get\<close> raises (a
  transport error or a timeout), when the status of the response is a client or server
  error (400 to 599), or when the body is not JSON, the run shows the exception and
  stops: the table is the one the run started with, and nothing is read back, derived
  or rendered.
\<close>

theorem fetch_failure_stops_run:
  assumes "(\<exists>e. g = Inl e)
     \<or> (\<exists>r. g = Inr r \<and> (400 \<le> status_code r \<and> status_code r < 600 \<or> json r = None))"
  shows "\<exists>e. fetch g = Inl e \<and> run rnd g t = Stopped e t"
proof -
  from assms obtain e where "fetch g = Inl e"
    using fetch_raises_iff [of g] by blast
  then show ?thesis by (simp add: run_def)
qed

theorem fetch_failure_stops_run_witness:
  "run no_rnd (Inl Timeout) [(1, row_ann)] = Stopped Timeout [(1, row_ann)]
   \<and> run no_rnd (Inr \<lparr>status_code = 404, json = Some [user_anna]\<rparr>) [(1, row_ann)]
       = Stopped (HTTPError 404) [(1, row_ann)]
   \<and> run no_rnd (Inr \<lparr>status_code = 200, json = None\<rparr>) [(1, row_ann)]
       = Stopped JSONDecodeError [(1, row_ann)]"
proof -
  have 1: "\<exists>e. fetch (Inl Timeout) = Inl e
        \<and> run no_rnd (Inl Timeout) [(1, row_ann)] = Stopped e [(1, row_ann)]"
    by (rule fetch_failure_stops_run) simp
  have 2: "\<exists>e. fetch (Inr \<lparr>status_code = 404, json = Some [user_anna]\<rparr>) = Inl e
        \<and> run no_rnd (Inr \<lparr>status_code = 404, json = Some [user_anna]\<rparr>) [(1, row_ann)]
          = Stopped e [(1, row_ann)]"
    by (rule fetch_failure_stops_run) simp
  have 3: "\<exists>e. fetch (Inr \<lparr>status_code = 200, json = None\<rparr>) = Inl e
        \<and> run no_rnd (Inr \<lparr>status_code = 200, json = None\<rparr>) [(1, row_ann)]
          = Stopped e [(1, row_ann)]"
    by (rule fetch_failure_stops_run) simp
  from 1 2 3 show ?thesis
    by (auto simp: fetch_def raise_for_status_def)
qed

text \<open>
  C6 as stated counts every status outside 200 to 299 as a failed fetch.
  \<^verbatim>\<open>raise_for_status\<close> does not raise for the status 300, so a response with that
  status and a JSON body is upserted, read back, derived and rendered.
\<close>

theorem non_2xx_status_counterexample:
  "run no_rnd (Inr \<lparr>status_code = 300, json = Some [user_anna]\<rparr>) [(1, row_ann)]
     = Rendered
         [(1, \<lparr>name = Some ''Anna'', username = None, email = None, phone = None,
                website = None\<rparr>)]
         [(''id'', [CInt 1]), (''name'', [CStr ''Anna'']), (''username'', [CNone]),
          (''email'', [CNone]), (''phone'', [CNone]), (''website'', [CNone]),
          (''name_length'', [CInt 4]), (''email_domain'', [CNone]),
          (''username_length'', [CInt 4]), (''company_name_length'', [CInt 4])]"
  by (simp add: run_def fetch_def raise_for_status_def execute_insert_def params_def
      min_rowid_def max_rowid_def user_anna_def derive_read_sql_query astype_str_def
      apply_len_def opt_cell_def email_domain_fn_def)

end
